theory Spec2Isabelle
  imports Main
begin

section \<open>CRC by modulo-2 long division (week9/crc.py)\<close>

text \<open>
  Bit strings are Python strings, modelled as \<open>string\<close> (a list of characters). A raised
  exception is a value of \<open>error\<close>: \<open>ValueError\<close> carries the message the source raises it with,
  \<open>IndexError\<close> is what indexing an empty string raises. Every call of \<open>print\<close> is one element
  of the output, in the order printed: each function returns its result (or the exception
  that ended it) together with what it has printed so far.
\<close>

datatype error = ValueError string | IndexError

datatype printed =
    Steps_header nat              \<comment> \<open>"\nLong division steps (divisor length = {n}):"\<close>
  | Divisor_line string           \<comment> \<open>"Divisor: {divisor}"\<close>
  | Rule_line                     \<comment> \<open>"-" * 60\<close>
  | Step_window nat nat string    \<comment> \<open>"Step {i+1:02d}: position {i:02d}, window = {window}", no newline\<close>
  | Step_xor string               \<comment> \<open>" -> XOR with divisor -> {new_bits}"\<close>
  | Step_skip                     \<comment> \<open>" -> leading bit 0 -> skip (would XOR with zeros)"\<close>
  | Remainder_line int string     \<comment> \<open>"Remainder (last {n-1} bits): {remainder}\n"\<close>
  | Sender_side                   \<comment> \<open>"SENDER SIDE"\<close>
  | Original_data string          \<comment> \<open>"Original data bits   : {data_bits}"\<close>
  | Generator_polynomial string   \<comment> \<open>"Generator polynomial : {generator_bits}"\<close>
  | Augmented string              \<comment> \<open>"Augmented (data+0s)  : {augmented}"\<close>
  | Computed_crc string           \<comment> \<open>"Computed CRC (remainder) : {remainder}"\<close>
  | Transmitted_bits string       \<comment> \<open>"Transmitted bits         : {transmitted}\n"\<close>
  | Receiver_side                 \<comment> \<open>"RECEIVER SIDE"\<close>
  | Received_bits string          \<comment> \<open>"Received bits         : {received_bits}"\<close>
  | No_error_detected             \<comment> \<open>"Receiver remainder is all zeros -> No error detected."\<close>
  | Error_detected                \<comment> \<open>"Receiver remainder is NOT all zeros -> Error detected!"\<close>

type_synonym 'a outcome = "(error + 'a) \<times> printed list"

subsection \<open>validate_binary_str\<close>

definition validate_binary_str :: "string \<Rightarrow> string \<Rightarrow> error + string" where
  "validate_binary_str s name =
     (if s = [] then Inl (ValueError (name @ '' cannot be empty.''))
      else if list_ex (\<lambda>c. c \<notin> set ''01'') s
        then Inl (ValueError (name @ '' must contain only '' @ [CHR 0x27] @ ''0'' @ [CHR 0x27]
                                @ '' and '' @ [CHR 0x27] @ ''1'' @ [CHR 0x27] @ '' characters.''))
      else Inr s)"

subsection \<open>xor\<close>

text \<open>\<open>zip\<close> stops at the shorter of the two strings, as Python's does.\<close>

definition xor_str :: "string \<Rightarrow> string \<Rightarrow> string" where
  "xor_str a b = map (\<lambda>(x, y). if x = y then CHR ''0'' else CHR ''1'') (zip a b)"

subsection \<open>long_division_show\<close>

text \<open>
  The body of the \<open>for\<close> loop, run for the offsets \<open>is\<close> in turn on the working buffer.
  \<open>work[i:i+n]\<close> is \<open>take n (drop i work)\<close>; reading \<open>window[0]\<close> of an empty window raises
  \<open>IndexError\<close>; the slice assignment \<open>work[i:i+n] = list(new_bits)\<close> replaces the slice by
  the new bits, whatever their number.
\<close>

fun division_loop ::
  "string \<Rightarrow> bool \<Rightarrow> nat list \<Rightarrow> string \<Rightarrow> printed list \<Rightarrow> string outcome" where
  "division_loop divisor show_steps [] work out = (Inr work, out)"
| "division_loop divisor show_steps (i # is) work out =
     (let n = length divisor;
          window = take n (drop i work);
          out1 = (if show_steps then out @ [Step_window (i + 1) i window] else out)
      in case window of
           [] \<Rightarrow> (Inl IndexError, out1)
         | w0 # _ \<Rightarrow>
             if w0 = CHR ''1'' then
               let new_bits = xor_str window divisor;
                   out2 = (if show_steps then out1 @ [Step_xor new_bits] else out1)
               in division_loop divisor show_steps is
                    (take i work @ new_bits @ drop (i + n) work) out2
             else
               division_loop divisor show_steps is work
                 (if show_steps then out1 @ [Step_skip] else out1))"

text \<open>
  \<open>range(len(dividend) - n + 1)\<close> is empty when the bound is not positive, which is what the
  truncating subtraction of \<open>nat\<close> gives. \<open>work[-(n-1):]\<close> with \<open>n > 1\<close> is the last \<open>n - 1\<close>
  elements, or the whole list when it is shorter.
\<close>

definition long_division_show :: "string \<Rightarrow> string \<Rightarrow> bool \<Rightarrow> string outcome" where
  "long_division_show dividend divisor show_steps =
     (let n = length divisor;
          work = dividend;
          out0 = (if show_steps then [Steps_header n, Divisor_line divisor, Rule_line] else [])
      in case division_loop divisor show_steps [0 ..< length dividend + 1 - n] work out0 of
           (Inl e, out) \<Rightarrow> (Inl e, out)
         | (Inr work', out) \<Rightarrow>
             let remainder = (if n > 1 then drop (length work' - (n - 1)) work' else ''0'')
             in (Inr remainder,
                 if show_steps then out @ [Rule_line, Remainder_line (int n - 1) remainder]
                 else out))"

subsection \<open>compute_crc_sender\<close>

definition generator_message :: string where
  "generator_message =
     ''Generator polynomial must start with '' @ [CHR 0x27] @ ''1'' @ [CHR 0x27]
       @ '' (highest-order bit).''"

definition compute_crc_sender :: "string \<Rightarrow> string \<Rightarrow> bool \<Rightarrow> (string \<times> string) outcome" where
  "compute_crc_sender data_bits generator_bits show_steps =
     (case validate_binary_str data_bits ''Data bits'' of
        Inl e \<Rightarrow> (Inl e, [])
      | Inr _ \<Rightarrow>
     (case validate_binary_str generator_bits ''Generator bits'' of
        Inl e \<Rightarrow> (Inl e, [])
      | Inr _ \<Rightarrow>
     (if hd generator_bits \<noteq> CHR ''1'' then (Inl (ValueError generator_message), [])
      else
        let k = length generator_bits - 1;
            augmented = data_bits @ replicate k (CHR ''0'');
            out0 = (if show_steps
                    then [Sender_side, Original_data data_bits,
                          Generator_polynomial generator_bits, Augmented augmented]
                    else [])
        in case long_division_show augmented generator_bits show_steps of
             (Inl e, out) \<Rightarrow> (Inl e, out0 @ out)
           | (Inr remainder, out) \<Rightarrow>
               let transmitted = data_bits @ remainder
               in (Inr (remainder, transmitted),
                   out0 @ out @ (if show_steps
                                 then [Computed_crc remainder, Transmitted_bits transmitted]
                                 else [])))))"

subsection \<open>check_crc_receiver\<close>

definition check_crc_receiver :: "string \<Rightarrow> string \<Rightarrow> bool \<Rightarrow> (bool \<times> string) outcome" where
  "check_crc_receiver received_bits generator_bits show_steps =
     (case validate_binary_str received_bits ''Received bits'' of
        Inl e \<Rightarrow> (Inl e, [])
      | Inr _ \<Rightarrow>
     (case validate_binary_str generator_bits ''Generator bits'' of
        Inl e \<Rightarrow> (Inl e, [])
      | Inr _ \<Rightarrow>
     (if hd generator_bits \<noteq> CHR ''1'' then (Inl (ValueError generator_message), [])
      else
        let out0 = (if show_steps
                    then [Receiver_side, Received_bits received_bits,
                          Generator_polynomial generator_bits]
                    else [])
        in case long_division_show received_bits generator_bits show_steps of
             (Inl e, out) \<Rightarrow> (Inl e, out0 @ out)
           | (Inr remainder, out) \<Rightarrow>
               let ok = list_all (\<lambda>ch. ch = CHR ''0'') remainder
               in (Inr (ok, remainder),
                   out0 @ out @ (if show_steps
                                 then [if ok then No_error_detected else Error_detected]
                                 else [])))))"

subsection \<open>The bit flips of demo_interactive\<close>

text \<open>
  Choice 2 of \<open>demo_interactive\<close> (lines 130 to 139): \<open>pos\<close> is \<open>None\<close> when \<open>int(pos)\<close>
  raises. A position that does not parse or is out of range leaves the frame as it is.
\<close>

definition flip_one :: "string \<Rightarrow> int option \<Rightarrow> string" where
  "flip_one transmitted pos =
     (case pos of
        None \<Rightarrow> transmitted
      | Some p \<Rightarrow>
          if \<not> (0 \<le> p \<and> p < int (length transmitted)) then transmitted
          else
            let b = (if transmitted ! nat p = CHR ''0'' then CHR ''1'' else CHR ''0'')
            in take (nat p) transmitted @ [b] @ drop (nat p + 1) transmitted)"

text \<open>
  Choice 3 (lines 141 to 150): the loop over \<open>pos_list\<close> on the list \<open>changed\<close>; a token
  for which \<open>int(pos)\<close> raises is \<open>None\<close> and is passed over by the \<open>except\<close>.
\<close>

fun flip_loop :: "nat \<Rightarrow> int option list \<Rightarrow> string \<Rightarrow> string" where
  "flip_loop len [] changed = changed"
| "flip_loop len (None # pos_list) changed = flip_loop len pos_list changed"
| "flip_loop len (Some p # pos_list) changed =
     flip_loop len pos_list
       (if 0 \<le> p \<and> p < int len
        then changed[nat p := (if changed ! nat p = CHR ''0'' then CHR ''1'' else CHR ''0'')]
        else changed)"

definition flip_many :: "string \<Rightarrow> int option list \<Rightarrow> string" where
  "flip_many transmitted pos_list = flip_loop (length transmitted) pos_list transmitted"

subsection \<open>The division loop without its output\<close>

text \<open>
  For the proofs: \<open>xor_at\<close> is the buffer after the write-back at offset \<open>i\<close>, \<open>div_step\<close> one
  pass of the loop body on a buffer that reaches offset \<open>i\<close>, and \<open>division_result\<close> the buffer
  after the whole sweep. \<open>division_loop_fold\<close> below shows that \<open>division_loop\<close> computes them.
\<close>

definition xor_at :: "string \<Rightarrow> nat \<Rightarrow> string \<Rightarrow> string" where
  "xor_at g i w = take i w @ xor_str (take (length g) (drop i w)) g @ drop (i + length g) w"

definition div_step :: "string \<Rightarrow> nat \<Rightarrow> string \<Rightarrow> string" where
  "div_step g i w = (if w ! i = CHR ''1'' then xor_at g i w else w)"

definition division_result :: "string \<Rightarrow> string \<Rightarrow> string" where
  "division_result dividend divisor =
     fold (div_step divisor) [0 ..< length dividend + 1 - length divisor] dividend"

text \<open>
  \<open>bx\<close> is the character that \<open>xor\<close> writes for one pair of characters, and \<open>checksum\<close> the
  remainder that \<open>compute_crc_sender\<close> returns for valid inputs (\<open>compute_crc_sender_checksum\<close>
  below).
\<close>

definition bx :: "char \<Rightarrow> char \<Rightarrow> char" where
  "bx x y = (if x = y then CHR ''0'' else CHR ''1'')"

definition checksum :: "string \<Rightarrow> string \<Rightarrow> string" where
  "checksum d g =
     (if length g > 1
      then drop (length d) (division_result (d @ replicate (length g - 1) (CHR ''0'')) g)
      else ''0'')"

section \<open>Properties of the division loop\<close>

lemma length_xor_str: "length (xor_str a b) = min (length a) (length b)"
  by (simp add: xor_str_def)

lemma length_xor_at: "i + length g \<le> length w \<Longrightarrow> length (xor_at g i w) = length w"
  by (simp add: xor_at_def length_xor_str)

lemma length_div_step: "i + length g \<le> length w \<Longrightarrow> length (div_step g i w) = length w"
  by (simp add: div_step_def length_xor_at)

lemma length_fold_div_step:
  "\<forall>i\<in>set is. i + length g \<le> length w \<Longrightarrow> length (fold (div_step g) is w) = length w"
  by (induction "is" arbitrary: w) (simp_all add: length_div_step)

lemma division_loop_trace_free:
  "fst (division_loop g s1 is w out1) = fst (division_loop g s2 is w out2)"
proof (induction "is" arbitrary: w out1 out2)
  case Nil
  show ?case by simp
next
  case (Cons i "is")
  show ?case
  proof (cases "take (length g) (drop i w)")
    case Nil
    then show ?thesis by (auto simp: Let_def split: list.splits)
  next
    case win: (Cons w0 ws)
    show ?thesis
    proof (cases "w0 = CHR ''1''")
      case True
      show ?thesis
        unfolding division_loop.simps Let_def win list.case if_P [OF True]
        by (rule Cons.IH)
    next
      case False
      show ?thesis
        unfolding division_loop.simps Let_def win list.case if_not_P [OF False]
        by (rule Cons.IH)
    qed
  qed
qed

lemma division_loop_fold:
  assumes "g \<noteq> []" and "\<forall>i\<in>set is. i + length g \<le> length w"
  shows "fst (division_loop g s is w out) = Inr (fold (div_step g) is w)"
  using assms(2)
proof (induction "is" arbitrary: w out)
  case Nil
  show ?case by simp
next
  case (Cons i "is")
  from Cons.prems have i: "i + length g \<le> length w" by simp
  with assms(1) have il: "i < length w" by (cases g) auto
  from i assms(1) have win: "take (length g) (drop i w) = w ! i # take (length g - 1) (drop (Suc i) w)"
    using il by (cases g) (auto simp: Cons_nth_drop_Suc [symmetric])
  have rest: "\<forall>j\<in>set is. j + length g \<le> length (div_step g i w)"
    using Cons.prems i by (simp add: length_div_step)
  show ?case
  proof (cases "w ! i = CHR ''1''")
    case True
    then have "div_step g i w = take i w @ xor_str (take (length g) (drop i w)) g @ drop (i + length g) w"
      by (simp add: div_step_def xor_at_def)
    with True win rest show ?thesis
      using Cons.IH [of "div_step g i w"] by (simp add: Let_def)
  next
    case False
    then have "div_step g i w = w" by (simp add: div_step_def)
    with False win rest show ?thesis
      using Cons.IH [of w] by (simp add: Let_def)
  qed
qed

lemma long_division_show_fst:
  assumes "g \<noteq> []"
  shows "fst (long_division_show d g s) =
         Inr (if length g > 1
              then drop (length d - (length g - 1)) (division_result d g) else ''0'')"
proof -
  let ?is = "[0 ..< length d + 1 - length g]"
  let ?out0 = "if s then [Steps_header (length g), Divisor_line g, Rule_line] else []"
  have bound: "\<forall>i\<in>set ?is. i + length g \<le> length d" by auto
  obtain r out where loop: "division_loop g s ?is d ?out0 = (r, out)"
    by (cases "division_loop g s ?is d ?out0")
  from division_loop_fold [OF assms bound, of s ?out0] loop
  have r: "r = Inr (division_result d g)" by (simp add: division_result_def)
  have "length (division_result d g) = length d"
    unfolding division_result_def by (rule length_fold_div_step [OF bound])
  with loop r show ?thesis by (simp add: long_division_show_def Let_def)
qed


lemma validate_binary_str_valid:
  "s \<noteq> [] \<Longrightarrow> set s \<subseteq> {CHR ''0'', CHR ''1''} \<Longrightarrow> validate_binary_str s name = Inr s"
  by (auto simp: validate_binary_str_def list_ex_iff)

lemma length_division_result: "length (division_result d g) = length d"
  unfolding division_result_def by (rule length_fold_div_step) auto

lemma long_division_show_pair:
  assumes "g \<noteq> []"
  shows "\<exists>out. long_division_show d g s =
           (Inr (if length g > 1
                 then drop (length d - (length g - 1)) (division_result d g) else ''0''), out)"
  using long_division_show_fst [OF assms, of d s]
  by (cases "long_division_show d g s") simp

lemma compute_crc_sender_fst:
  assumes "d \<noteq> []" "set d \<subseteq> {CHR ''0'', CHR ''1''}"
    and "g \<noteq> []" "set g \<subseteq> {CHR ''0'', CHR ''1''}" "hd g = CHR ''1''"
  shows "fst (compute_crc_sender d g s) =
         (let crc = (if length g > 1
                     then drop (length d) (division_result (d @ replicate (length g - 1) (CHR ''0'')) g)
                     else ''0'')
          in Inr (crc, d @ crc))"
proof -
  from long_division_show_pair [OF assms(3), of "d @ replicate (length g - 1) (CHR ''0'')" s]
  obtain out where "long_division_show (d @ replicate (length g - 1) (CHR ''0'')) g s =
     (Inr (if length g > 1
           then drop (length d) (division_result (d @ replicate (length g - 1) (CHR ''0'')) g)
           else ''0''), out)"
    by auto
  then show ?thesis
    by (simp add: compute_crc_sender_def validate_binary_str_valid assms Let_def)
qed

lemma check_crc_receiver_fst:
  assumes "r \<noteq> []" "set r \<subseteq> {CHR ''0'', CHR ''1''}"
    and "g \<noteq> []" "set g \<subseteq> {CHR ''0'', CHR ''1''}" "hd g = CHR ''1''"
  shows "fst (check_crc_receiver r g s) =
         (let remainder = (if length g > 1
                     then drop (length r - (length g - 1)) (division_result r g)
                     else ''0'')
          in Inr (list_all (\<lambda>ch. ch = CHR ''0'') remainder, remainder))"
proof -
  from long_division_show_pair [OF assms(3), of r s]
  obtain out where "long_division_show r g s =
     (Inr (if length g > 1 then drop (length r - (length g - 1)) (division_result r g)
           else ''0''), out)"
    by auto
  then show ?thesis
    by (simp add: check_crc_receiver_def validate_binary_str_valid assms Let_def)
qed


lemma xor_str_bx: "xor_str a b = map (\<lambda>(x, y). bx x y) (zip a b)"
  by (simp add: xor_str_def bx_def)

lemma nth_xor_str:
  "j < length a \<Longrightarrow> j < length b \<Longrightarrow> xor_str a b ! j = bx (a ! j) (b ! j)"
  by (simp add: xor_str_bx)

lemma set_xor_str: "set (xor_str a b) \<subseteq> {CHR ''0'', CHR ''1''}"
  by (auto simp: xor_str_def)

lemma nth_xor_at:
  assumes "i + length g \<le> length w" and "j < length w"
  shows "xor_at g i w ! j =
         (if i \<le> j \<and> j < i + length g then bx (w ! j) (g ! (j - i)) else w ! j)"
proof -
  let ?x = "xor_str (take (length g) (drop i w)) g"
  have lx: "length ?x = length g" using assms by (simp add: length_xor_str)
  have li: "length (take i w) = i" using assms by simp
  consider "j < i" | "i \<le> j" "j < i + length g" | "i + length g \<le> j" by linarith
  then show ?thesis
  proof cases
    case 1
    with assms have "xor_at g i w ! j = take i w ! j"
      unfolding xor_at_def by (subst nth_append) simp
    with 1 show ?thesis by simp
  next
    case 2
    with assms have "xor_at g i w ! j = (?x @ drop (i + length g) w) ! (j - i)"
      unfolding xor_at_def by (subst nth_append) simp
    also from 2 have "\<dots> = ?x ! (j - i)"
      by (subst nth_append) (auto simp: lx)
    also from 2 assms have "\<dots> = bx (w ! j) (g ! (j - i))"
      by (simp add: nth_xor_str)
    finally show ?thesis using 2 by simp
  next
    case 3
    with assms have "xor_at g i w ! j = (?x @ drop (i + length g) w) ! (j - i)"
      unfolding xor_at_def by (subst nth_append) simp
    also from 3 have "\<dots> = drop (i + length g) w ! (j - i - length g)"
      by (subst nth_append) (auto simp: lx)
    also from 3 assms have "\<dots> = w ! j" by simp
    finally show ?thesis using 3 by simp
  qed
qed

lemma set_xor_at:
  "set w \<subseteq> {CHR ''0'', CHR ''1''} \<Longrightarrow> set (xor_at g i w) \<subseteq> {CHR ''0'', CHR ''1''}"
  using set_xor_str [of "take (length g) (drop i w)" g]
  by (auto simp: xor_at_def dest: in_set_takeD in_set_dropD)

lemma set_div_step:
  "set w \<subseteq> {CHR ''0'', CHR ''1''} \<Longrightarrow> set (div_step g i w) \<subseteq> {CHR ''0'', CHR ''1''}"
  by (simp add: div_step_def set_xor_at)

lemma set_fold_div_step:
  "set w \<subseteq> {CHR ''0'', CHR ''1''} \<Longrightarrow> set (fold (div_step g) is w) \<subseteq> {CHR ''0'', CHR ''1''}"
  by (induction "is" arbitrary: w) (simp_all add: set_div_step)

lemma nth_div_step:
  assumes "i + length g \<le> length w" and "j < length w"
  shows "div_step g i w ! j =
         (if w ! i = CHR ''1'' \<and> i \<le> j \<and> j < i + length g
          then bx (w ! j) (g ! (j - i)) else w ! j)"
  using assms by (simp add: div_step_def nth_xor_at)

lemma bit_cases:
  assumes "set w \<subseteq> {CHR ''0'', CHR ''1''}" and "j < length w"
  shows "w ! j = CHR ''0'' \<or> w ! j = CHR ''1''"
proof -
  from assms(2) have "w ! j \<in> set w" by (rule nth_mem)
  with assms(1) have "w ! j \<in> {CHR ''0'', CHR ''1''}" by (rule subsetD)
  then show ?thesis by simp
qed

lemma bx_both:
  "bx x y = bx (bx x z) (bx y z)" if "x = CHR ''0'' \<or> x = CHR ''1''" "y = CHR ''0'' \<or> y = CHR ''1''"
    "z = CHR ''0'' \<or> z = CHR ''1''"
  using that by (auto simp: bx_def)

lemma bx_left:
  "bx (bx x y) z = bx (bx x z) y" if "x = CHR ''0'' \<or> x = CHR ''1''" "y = CHR ''0'' \<or> y = CHR ''1''"
    "z = CHR ''0'' \<or> z = CHR ''1''"
  using that by (auto simp: bx_def)

lemma bx_right:
  "bx (bx x y) z = bx x (bx y z)" if "x = CHR ''0'' \<or> x = CHR ''1''" "y = CHR ''0'' \<or> y = CHR ''1''"
    "z = CHR ''0'' \<or> z = CHR ''1''"
  using that by (auto simp: bx_def)

lemma bx_eq_one: "bx x y = CHR ''1'' \<longleftrightarrow> x \<noteq> y"
  by (simp add: bx_def)

lemma div_step_xor_str:
  assumes a: "set a \<subseteq> {CHR ''0'', CHR ''1''}" and b: "set b \<subseteq> {CHR ''0'', CHR ''1''}"
    and g: "set g \<subseteq> {CHR ''0'', CHR ''1''}"
    and len: "length a = length b" and i: "i + length g \<le> length a" and g0: "g \<noteq> []"
  shows "div_step g i (xor_str a b) = xor_str (div_step g i a) (div_step g i b)"
proof (rule nth_equalityI)
  from i len show "length (div_step g i (xor_str a b)) = length (xor_str (div_step g i a) (div_step g i b))"
    by (simp add: length_div_step length_xor_str)
next
  fix j assume "j < length (div_step g i (xor_str a b))"
  with i len have j: "j < length a" by (simp add: length_div_step length_xor_str)
  from i g0 have il: "i < length a" by (cases g) auto
  have aj: "a ! j = CHR ''0'' \<or> a ! j = CHR ''1''" using bit_cases [OF a j] .
  have bj: "b ! j = CHR ''0'' \<or> b ! j = CHR ''1''" using bit_cases [OF b] j len by simp
  have ai: "a ! i = CHR ''0'' \<or> a ! i = CHR ''1''" using bit_cases [OF a il] .
  have bi: "b ! i = CHR ''0'' \<or> b ! i = CHR ''1''" using bit_cases [OF b] il len by simp
  have l: "div_step g i (xor_str a b) ! j =
        (if a ! i \<noteq> b ! i \<and> i \<le> j \<and> j < i + length g
          then bx (bx (a ! j) (b ! j)) (g ! (j - i)) else bx (a ! j) (b ! j))"
    using i len j il by (simp add: nth_div_step length_xor_str nth_xor_str bx_eq_one)
  have r: "xor_str (div_step g i a) (div_step g i b) ! j =
         bx (if a ! i = CHR ''1'' \<and> i \<le> j \<and> j < i + length g
               then bx (a ! j) (g ! (j - i)) else a ! j)
            (if b ! i = CHR ''1'' \<and> i \<le> j \<and> j < i + length g
               then bx (b ! j) (g ! (j - i)) else b ! j)"
    using i len j by (simp add: nth_xor_str length_div_step nth_div_step)
  show "div_step g i (xor_str a b) ! j = xor_str (div_step g i a) (div_step g i b) ! j"
  proof (cases "i \<le> j \<and> j < i + length g")
    case False
    then show ?thesis unfolding l r by auto
  next
    case True
    then have "j - i < length g" by arith
    from bit_cases [OF g this]
    have gj: "g ! (j - i) = CHR ''0'' \<or> g ! (j - i) = CHR ''1''" .
    consider "a ! i = CHR ''1''" "b ! i = CHR ''1''" | "a ! i = CHR ''1''" "b ! i = CHR ''0''"
      | "a ! i = CHR ''0''" "b ! i = CHR ''1''" | "a ! i = CHR ''0''" "b ! i = CHR ''0''"
      using ai bi by blast
    then show ?thesis
    proof cases
      case 1
      with True show ?thesis unfolding l r by (simp add: bx_both [OF aj bj gj])
    next
      case 2
      with True show ?thesis unfolding l r by (simp add: bx_left [OF aj bj gj])
    next
      case 3
      with True show ?thesis unfolding l r by (simp add: bx_right [OF aj bj gj])
    next
      case 4
      with True show ?thesis unfolding l r by simp
    qed
  qed
qed

lemma fold_div_step_xor_str:
  assumes g: "set g \<subseteq> {CHR ''0'', CHR ''1''}" and g0: "g \<noteq> []"
  shows "set a \<subseteq> {CHR ''0'', CHR ''1''} \<Longrightarrow> set b \<subseteq> {CHR ''0'', CHR ''1''} \<Longrightarrow>
    length a = length b \<Longrightarrow> \<forall>i\<in>set is. i + length g \<le> length a \<Longrightarrow>
    fold (div_step g) is (xor_str a b) =
    xor_str (fold (div_step g) is a) (fold (div_step g) is b)"
proof (induction "is" arbitrary: a b)
  case Nil
  show ?case by simp
next
  case (Cons i "is")
  from Cons.prems have i: "i + length g \<le> length a" by simp
  have "fold (div_step g) (i # is) (xor_str a b) =
        fold (div_step g) is (xor_str (div_step g i a) (div_step g i b))"
    using div_step_xor_str [OF Cons.prems(1,2) g Cons.prems(3) i g0] by simp
  also have "\<dots> = xor_str (fold (div_step g) is (div_step g i a))
                          (fold (div_step g) is (div_step g i b))"
  proof (rule Cons.IH)
    show "set (div_step g i a) \<subseteq> {CHR ''0'', CHR ''1''}" by (rule set_div_step [OF Cons.prems(1)])
    show "set (div_step g i b) \<subseteq> {CHR ''0'', CHR ''1''}" by (rule set_div_step [OF Cons.prems(2)])
    show "length (div_step g i a) = length (div_step g i b)"
      using i Cons.prems(3) by (simp add: length_div_step)
    show "\<forall>k\<in>set is. k + length g \<le> length (div_step g i a)"
      using i Cons.prems(4) by (simp add: length_div_step)
  qed
  finally show ?case by simp
qed

lemma fold_div_step_skip:
  "\<forall>i\<in>set is. w ! i \<noteq> CHR ''1'' \<Longrightarrow> fold (div_step g) is w = w"
  by (induction "is") (simp_all add: div_step_def)

lemma fold_div_step_zeroes:
  assumes g: "g \<noteq> []" "hd g = CHR ''1''" and w: "set w \<subseteq> {CHR ''0'', CHR ''1''}"
  shows "c + length g \<le> length w + 1 \<Longrightarrow> j < c \<Longrightarrow>
         fold (div_step g) [0 ..< c] w ! j = CHR ''0''"
proof (induction c arbitrary: j)
  case 0
  then show ?case by simp
next
  case (Suc c)
  let ?W = "fold (div_step g) [0 ..< c] w"
  have "\<forall>i\<in>set [0 ..< c]. i + length g \<le> length w"
    using Suc.prems by auto
  then have lenW: "length ?W = length w"
    by (rule length_fold_div_step)
  have binW: "set ?W \<subseteq> {CHR ''0'', CHR ''1''}" by (rule set_fold_div_step [OF w])
  from Suc.prems have c: "c + length g \<le> length ?W" by (simp add: lenW)
  from g c have cl: "c < length ?W" by (cases g) auto
  from g have g0: "g ! 0 = CHR ''1''" by (cases g) auto
  have step: "fold (div_step g) [0 ..< Suc c] w = div_step g c ?W" by simp
  show ?case
  proof (cases "j < c")
    case True
    with Suc.prems Suc.IH [of j] have "?W ! j = CHR ''0''" by simp
    moreover from True cl have "j < length ?W" by simp
    ultimately show ?thesis
      unfolding step using True by (simp add: nth_div_step [OF c])
  next
    case False
    with Suc.prems have jc: "j = c" by simp
    from g(1) have "c < c + length g" by simp
    with bit_cases [OF binW cl] show ?thesis
      unfolding step jc by (auto simp: nth_div_step [OF c cl] g0 bx_def)
  qed
qed

lemma xor_str_self: "xor_str w w = replicate (length w) (CHR ''0'')"
  by (induction w) (simp_all add: xor_str_def)

lemma bx_zero:
  assumes "x = CHR ''0'' \<or> x = CHR ''1''"
  shows "bx x (CHR ''0'') = x" and "bx (CHR ''0'') x = x"
  using assms by (auto simp: bx_def)

lemma division_result_sweep:
  "length g \<le> length w + 1 \<Longrightarrow> division_result w g = fold (div_step g) [0 ..< length w + 1 - length g] w"
  by (simp add: division_result_def)

lemma encoded_frame_divisible:
  assumes d: "set d \<subseteq> {CHR ''0'', CHR ''1''}"
    and g: "g \<noteq> []" "set g \<subseteq> {CHR ''0'', CHR ''1''}" "hd g = CHR ''1''"
  defines "W \<equiv> division_result (d @ replicate (length g - 1) (CHR ''0'')) g"
  shows "division_result (d @ drop (length d) W) g =
         replicate (length d + (length g - 1)) (CHR ''0'')"
proof -
  let ?m = "length d" and ?k = "length g - 1"
  let ?aug = "d @ replicate ?k (CHR ''0'')"
  let ?t = "d @ drop ?m W"
  let ?is = "[0 ..< ?m]"
  from g(1) have n: "length g = Suc ?k" by (cases g) auto
  have steps: "length ?aug + 1 - length g = ?m" using n by simp
  have W: "W = fold (div_step g) ?is ?aug"
    unfolding W_def division_result_def steps ..
  have bounds: "\<forall>i\<in>set ?is. i + length g \<le> length ?aug" using n by auto
  have lenW: "length W = ?m + ?k"
    unfolding W_def by (simp add: length_division_result)
  have binaug: "set ?aug \<subseteq> {CHR ''0'', CHR ''1''}" using d by auto
  have binW: "set W \<subseteq> {CHR ''0'', CHR ''1''}"
    unfolding W by (rule set_fold_div_step [OF binaug])
  have zero: "W ! j = CHR ''0''" if "j < ?m" for j
    unfolding W using that n by (intro fold_div_step_zeroes [OF g(1) g(3) binaug]) auto
  have lent: "length ?t = ?m + ?k" by (simp add: lenW)
  have t: "?t = xor_str ?aug W"
  proof (rule nth_equalityI)
    show "length ?t = length (xor_str ?aug W)" by (simp add: length_xor_str lenW)
  next
    fix j assume "j < length ?t"
    with lent have j: "j < ?m + ?k" by simp
    then have x: "xor_str ?aug W ! j = bx (?aug ! j) (W ! j)"
      by (simp add: nth_xor_str lenW)
    show "?t ! j = xor_str ?aug W ! j"
    proof (cases "j < ?m")
      case True
      from bit_cases [OF d True] have "bx (d ! j) (CHR ''0'') = d ! j" by (rule bx_zero)
      with True show ?thesis unfolding x by (simp add: nth_append zero)
    next
      case False
      from j lenW have "j < length W" by simp
      from bit_cases [OF binW this] have "bx (CHR ''0'') (W ! j) = W ! j" by (rule bx_zero)
      with False j lenW show ?thesis unfolding x by (simp add: nth_append)
    qed
  qed
  have skip: "fold (div_step g) ?is W = W"
    by (rule fold_div_step_skip) (simp add: zero)
  have "division_result ?t g = fold (div_step g) ?is ?t"
    unfolding division_result_def using n lent by simp
  also have "\<dots> = xor_str (fold (div_step g) ?is ?aug) (fold (div_step g) ?is W)"
    unfolding t using bounds
    by (intro fold_div_step_xor_str [OF g(2) g(1) binaug binW]) (simp_all add: lenW)
  also have "\<dots> = xor_str W W" unfolding skip W [symmetric] ..
  also have "\<dots> = replicate (?m + ?k) (CHR ''0'')" by (simp add: xor_str_self lenW)
  finally show ?thesis .
qed

lemma set_division_result:
  "set d \<subseteq> {CHR ''0'', CHR ''1''} \<Longrightarrow> set (division_result d g) \<subseteq> {CHR ''0'', CHR ''1''}"
  unfolding division_result_def by (rule set_fold_div_step)

lemma set_checksum:
  assumes "set d \<subseteq> {CHR ''0'', CHR ''1''}"
  shows "set (checksum d g) \<subseteq> {CHR ''0'', CHR ''1''}"
proof (cases "length g > 1")
  case True
  from assms have "set (d @ replicate (length g - 1) (CHR ''0'')) \<subseteq> {CHR ''0'', CHR ''1''}"
    by auto
  from set_division_result [OF this, of g] True show ?thesis
    by (auto simp: checksum_def dest: in_set_dropD)
next
  case False
  then show ?thesis by (simp add: checksum_def)
qed

lemma compute_crc_sender_checksum:
  assumes "d \<noteq> []" "set d \<subseteq> {CHR ''0'', CHR ''1''}"
    and "g \<noteq> []" "set g \<subseteq> {CHR ''0'', CHR ''1''}" "hd g = CHR ''1''"
  shows "fst (compute_crc_sender d g s) = Inr (checksum d g, d @ checksum d g)"
  using compute_crc_sender_fst [OF assms, of s] by (simp add: checksum_def Let_def)

lemma transmitted_remainder_zero:
  assumes "d \<noteq> []" "set d \<subseteq> {CHR ''0'', CHR ''1''}"
    and "g \<noteq> []" "set g \<subseteq> {CHR ''0'', CHR ''1''}" "hd g = CHR ''1''"
  shows "\<exists>remainder. fst (check_crc_receiver (d @ checksum d g) g s) = Inr (True, remainder) \<and>
           (\<forall>ch\<in>set remainder. ch = CHR ''0'')"
proof -
  let ?t = "d @ checksum d g"
  have t0: "?t \<noteq> []" using assms(1) by simp
  have tb: "set ?t \<subseteq> {CHR ''0'', CHR ''1''}" using assms(2) set_checksum [OF assms(2), of g] by simp
  note rc = check_crc_receiver_fst [OF t0 tb assms(3,4,5), of s]
  show ?thesis
  proof (cases "length g > 1")
    case True
    then have "division_result ?t g = replicate (length d + (length g - 1)) (CHR ''0'')"
      using encoded_frame_divisible [OF assms(2,3,4,5)] by (simp add: checksum_def)
    with True rc show ?thesis by (simp add: Let_def list_all_iff)
  next
    case False
    with rc show ?thesis by (simp add: Let_def)
  qed
qed


lemma last_one_bit:
  assumes g: "set g \<subseteq> {CHR ''0'', CHR ''1''}" "hd g = CHR ''1''"
    and two: "2 \<le> length (filter (\<lambda>c. c = CHR ''1'') g)"
  shows "\<exists>a. 1 \<le> a \<and> a < length g \<and> g ! a = CHR ''1'' \<and>
             (\<forall>b. a < b \<and> b < length g \<longrightarrow> g ! b = CHR ''0'')"
proof -
  from two obtain x xs where gx: "g = x # xs" by (cases g) auto
  with g(2) have x: "x = CHR ''1''" by simp
  with two gx have "1 \<le> length (filter (\<lambda>c. c = CHR ''1'') xs)" by simp
  then have "filter (\<lambda>c. c = CHR ''1'') xs \<noteq> []" by auto
  then have "CHR ''1'' \<in> set xs" by (auto simp: filter_empty_conv)
  then obtain ys zs where xs: "xs = ys @ CHR ''1'' # zs" and zs: "CHR ''1'' \<notin> set zs"
    by (auto dest: split_list_last)
  let ?a = "Suc (length ys)"
  have "g ! ?a = CHR ''1''" by (simp add: gx xs)
  moreover have "?a < length g" by (simp add: gx xs)
  moreover have "g ! b = CHR ''0''" if "?a < b" "b < length g" for b
  proof -
    from that have b: "g ! b = zs ! (b - Suc ?a)" and bl: "b - Suc ?a < length zs"
      by (auto simp: gx xs nth_append nth_Cons')
    from bl have "zs ! (b - Suc ?a) \<in> set zs" by (rule nth_mem)
    with zs have "g ! b \<noteq> CHR ''1''" unfolding b by auto
    with bit_cases [OF g(1) that(2)] show ?thesis by simp
  qed
  ultimately show ?thesis by (intro exI [of _ ?a]) simp
qed

lemma div_step_keeps_one:
  assumes a: "a < length g" "g ! a = CHR ''1''"
      "\<forall>b. a < b \<and> b < length g \<longrightarrow> g ! b = CHR ''0''"
    and i: "i + length g \<le> length s"
    and one: "\<exists>q<length s. s ! q = CHR ''1''"
    and clear: "\<forall>q. i + a \<le> q \<and> q < length s \<longrightarrow> s ! q = CHR ''0''"
  shows "\<exists>q<length s. div_step g i s ! q = CHR ''1''"
    and "\<forall>q. Suc i + a \<le> q \<and> q < length s \<longrightarrow> div_step g i s ! q = CHR ''0''"
proof -
  have "(\<exists>q<length s. div_step g i s ! q = CHR ''1'') \<and>
        (\<forall>q. Suc i + a \<le> q \<and> q < length s \<longrightarrow> div_step g i s ! q = CHR ''0'')"
  proof (cases "s ! i = CHR ''1''")
    case False
    then have "div_step g i s = s" by (simp add: div_step_def)
    with one clear show ?thesis by simp
  next
    case True
    from a(1) i have ia: "i + a < length s" by simp
    with clear have "s ! (i + a) = CHR ''0''" by simp
    with True a ia have "div_step g i s ! (i + a) = CHR ''1''"
      by (simp add: nth_div_step [OF i ia] bx_def)
    with ia have first: "\<exists>q<length s. div_step g i s ! q = CHR ''1''" by blast
    have "div_step g i s ! q = CHR ''0''" if q: "Suc i + a \<le> q" "q < length s" for q
    proof -
      from q clear have sq: "s ! q = CHR ''0''" by simp
      show ?thesis
      proof (cases "q < i + length g")
        case inside: True
        with q have "a < q - i \<and> q - i < length g" by arith
        with a(3) have "g ! (q - i) = CHR ''0''" by blast
        with sq True inside q show ?thesis
          by (simp add: nth_div_step [OF i q(2)] bx_def)
      next
        case False
        with sq show ?thesis by (simp add: nth_div_step [OF i q(2)])
      qed
    qed
    with first show ?thesis by simp
  qed
  then show "\<exists>q<length s. div_step g i s ! q = CHR ''1''"
    and "\<forall>q. Suc i + a \<le> q \<and> q < length s \<longrightarrow> div_step g i s ! q = CHR ''0''"
    by simp_all
qed

lemma fold_div_step_keeps_one:
  assumes a: "a < length g" "g ! a = CHR ''1''"
      "\<forall>b. a < b \<and> b < length g \<longrightarrow> g ! b = CHR ''0''"
    and im: "i \<le> m"
  shows "m + length g \<le> length s + 1 \<Longrightarrow>
    \<exists>q<length s. s ! q = CHR ''1'' \<Longrightarrow>
    \<forall>q. i + a \<le> q \<and> q < length s \<longrightarrow> s ! q = CHR ''0'' \<Longrightarrow>
    \<exists>q<length s. fold (div_step g) [i ..< m] s ! q = CHR ''1''"
  using im
proof (induction i arbitrary: s rule: inc_induct)
  case base
  then show ?case by simp
next
  case (step k)
  from step.hyps step.prems(1) have k: "k + length g \<le> length s" by simp
  have len: "length (div_step g k s) = length s" by (rule length_div_step [OF k])
  note keep = div_step_keeps_one [OF a k step.prems(2,3)]
  have "\<exists>q<length (div_step g k s). fold (div_step g) [Suc k ..< m] (div_step g k s) ! q = CHR ''1''"
    using step.prems(1) keep unfolding len [symmetric]
    by (intro step.IH) (simp_all add: len)
  with step.hyps show ?case by (simp add: upt_conv_Cons len)
qed

lemma single_error_remainder:
  assumes g: "g \<noteq> []" "set g \<subseteq> {CHR ''0'', CHR ''1''}" "hd g = CHR ''1''"
    and two: "2 \<le> length (filter (\<lambda>c. c = CHR ''1'') g)"
    and p: "p < len" and len: "length g \<le> len"
  defines "e \<equiv> (replicate len (CHR ''0''))[p := CHR ''1'']"
  shows "\<exists>q. len + 1 - length g \<le> q \<and> q < len \<and> division_result e g ! q = CHR ''1''"
proof -
  let ?m = "len + 1 - length g"
  from last_one_bit [OF g(2,3) two] obtain a where a: "1 \<le> a" "a < length g"
    "g ! a = CHR ''1''" "\<forall>b. a < b \<and> b < length g \<longrightarrow> g ! b = CHR ''0''"
    by blast
  from g(1) have n1: "1 \<le> length g" by (cases g) auto
  have le: "length e = len" by (simp add: e_def)
  have bine: "set e \<subseteq> {CHR ''0'', CHR ''1''}"
    unfolding e_def using set_update_subset_insert [of "replicate len (CHR ''0'')" p "CHR ''1''"]
    by auto
  have ep: "e ! p = CHR ''1''" using p by (simp add: e_def)
  have eq: "e ! q = CHR ''0''" if "q \<noteq> p" "q < len" for q
    using that by (simp add: e_def)
  have F: "division_result e g = fold (div_step g) [0 ..< ?m] e"
    by (simp add: division_result_def le)
  have one: "\<exists>q<len. division_result e g ! q = CHR ''1''"
  proof (cases "p < ?m")
    case False
    have "fold (div_step g) [0 ..< ?m] e = e"
    proof (rule fold_div_step_skip, rule ballI)
      fix i assume "i \<in> set [0 ..< ?m]"
      with False have "i \<noteq> p" "i < len" using len n1 by auto
      then show "e ! i \<noteq> CHR ''1''" by (simp add: eq)
    qed
    with ep p show ?thesis unfolding F by auto
  next
    case True
    then have split: "[0 ..< ?m] = [0 ..< p] @ [p ..< ?m]"
      by (metis le_add_diff_inverse less_imp_le_nat upt_add_eq_append zero_le)
    have "fold (div_step g) [0 ..< p] e = e"
    proof (rule fold_div_step_skip, rule ballI)
      fix i assume "i \<in> set [0 ..< p]"
      with p have "i \<noteq> p" "i < len" by auto
      then show "e ! i \<noteq> CHR ''1''" by (simp add: eq)
    qed
    then have "division_result e g = fold (div_step g) [p ..< ?m] e"
      unfolding F split by simp
    moreover have "\<exists>q<length e. fold (div_step g) [p ..< ?m] e ! q = CHR ''1''"
    proof (rule fold_div_step_keeps_one [OF a(2,3,4)])
      from True show "p \<le> ?m" by simp
      from len show "?m + length g \<le> length e + 1" by (simp add: le)
      from ep p show "\<exists>q<length e. e ! q = CHR ''1''" unfolding le by blast
      from a(1) show "\<forall>q. p + a \<le> q \<and> q < length e \<longrightarrow> e ! q = CHR ''0''"
        by (simp add: le eq)
    qed
    ultimately show ?thesis by (simp add: le)
  qed
  then obtain q where q: "q < len" "division_result e g ! q = CHR ''1''" by blast
  have "?m \<le> q"
  proof (rule ccontr)
    assume "\<not> ?m \<le> q"
    then have "q < ?m" by simp
    with len have "fold (div_step g) [0 ..< ?m] e ! q = CHR ''0''"
      by (intro fold_div_step_zeroes [OF g(1,3) bine]) (simp_all add: le)
    with q(2) show False unfolding F by simp
  qed
  with q show ?thesis by blast
qed

lemma flip_one_update:
  assumes "0 \<le> p" "p < int (length t)"
  shows "flip_one t (Some p) = t[nat p := (if t ! nat p = CHR ''0'' then CHR ''1'' else CHR ''0'')]"
proof -
  from assms have "nat p < length t" by simp
  then show ?thesis using assms
    by (simp add: flip_one_def Let_def upd_conv_take_nth_drop)
qed

lemma update_as_xor_str:
  assumes t: "set t \<subseteq> {CHR ''0'', CHR ''1''}" and p: "p < length t"
  shows "t[p := (if t ! p = CHR ''0'' then CHR ''1'' else CHR ''0'')] =
         xor_str t ((replicate (length t) (CHR ''0''))[p := CHR ''1''])"
proof (rule nth_equalityI)
  show "length (t[p := (if t ! p = CHR ''0'' then CHR ''1'' else CHR ''0'')]) =
        length (xor_str t ((replicate (length t) (CHR ''0''))[p := CHR ''1'']))"
    by (simp add: length_xor_str)
next
  fix j assume "j < length (t[p := (if t ! p = CHR ''0'' then CHR ''1'' else CHR ''0'')])"
  then have j: "j < length t" by simp
  from bit_cases [OF t j] j p
  show "t[p := (if t ! p = CHR ''0'' then CHR ''1'' else CHR ''0'')] ! j =
        xor_str t ((replicate (length t) (CHR ''0''))[p := CHR ''1'']) ! j"
    by (cases "j = p") (auto simp: nth_xor_str bx_def)
qed

lemma flipped_frame_detected:
  assumes d: "d \<noteq> []" "set d \<subseteq> {CHR ''0'', CHR ''1''}"
    and g: "g \<noteq> []" "set g \<subseteq> {CHR ''0'', CHR ''1''}" "hd g = CHR ''1''"
    and two: "2 \<le> length (filter (\<lambda>c. c = CHR ''1'') g)"
    and p: "0 \<le> p" "p < int (length (d @ checksum d g))"
  shows "\<exists>remainder. fst (check_crc_receiver (flip_one (d @ checksum d g) (Some p)) g s) =
           Inr (False, remainder)"
proof -
  let ?t = "d @ checksum d g"
  let ?L = "length ?t"
  let ?e = "(replicate ?L (CHR ''0''))[nat p := CHR ''1'']"
  let ?v = "flip_one ?t (Some p)"
  let ?is = "[0 ..< ?L + 1 - length g]"
  have "length (filter (\<lambda>c. c = CHR ''1'') g) \<le> length g" by (rule length_filter_le)
  with two have n: "1 < length g" by linarith
  then have cs: "checksum d g = drop (length d) (division_result (d @ replicate (length g - 1) (CHR ''0'')) g)"
    by (simp add: checksum_def)
  have L: "?L = length d + (length g - 1)"
    unfolding cs by (simp add: length_division_result)
  from d(1) have d1: "1 \<le> length d" by (cases d) auto
  with L n have gL: "length g \<le> ?L" by simp
  from p have pn: "nat p < ?L" by simp
  have tb: "set ?t \<subseteq> {CHR ''0'', CHR ''1''}" using d(2) set_checksum [OF d(2), of g] by simp
  have eb: "set ?e \<subseteq> {CHR ''0'', CHR ''1''}"
    using set_update_subset_insert [of "replicate ?L (CHR ''0'')" "nat p" "CHR ''1''"] by auto
  have v: "?v = xor_str ?t ?e"
    unfolding flip_one_update [OF p] by (rule update_as_xor_str [OF tb pn])
  have lv: "length ?v = ?L" unfolding v by (simp add: length_xor_str)
  have vb: "set ?v \<subseteq> {CHR ''0'', CHR ''1''}" unfolding v by (rule set_xor_str)
  have v0: "?v \<noteq> []" using lv pn by auto
  have zero: "division_result ?t g = replicate ?L (CHR ''0'')"
  proof -
    have "division_result ?t g = replicate (length d + (length g - 1)) (CHR ''0'')"
      using encoded_frame_divisible [OF d(2) g] by (simp only: cs)
    then show ?thesis by (simp only: L)
  qed
  have "division_result ?v g = fold (div_step g) ?is ?v"
    by (simp only: division_result_def lv)
  also have "\<dots> = fold (div_step g) ?is (xor_str ?t ?e)"
    by (simp only: v)
  also have "\<dots> = xor_str (fold (div_step g) ?is ?t) (fold (div_step g) ?is ?e)"
    by (intro fold_div_step_xor_str [OF g(2) g(1) tb eb]) auto
  also have "\<dots> = xor_str (division_result ?t g) (division_result ?e g)"
    by (simp add: division_result_def)
  finally have dv: "division_result ?v g = xor_str (replicate ?L (CHR ''0'')) (division_result ?e g)"
    unfolding zero .
  from single_error_remainder [OF g two pn gL]
  obtain q where q: "?L + 1 - length g \<le> q" "q < ?L" "division_result ?e g ! q = CHR ''1''"
    by blast
  from q(2,3) have vq: "division_result ?v g ! q = CHR ''1''"
    unfolding dv by (simp add: nth_xor_str length_division_result bx_def)
  let ?r = "drop (?L - (length g - 1)) (division_result ?v g)"
  from q n have "?r ! (q - (?L - (length g - 1))) = CHR ''1''"
    by (simp add: length_division_result lv vq)
  moreover from q n have "q - (?L - (length g - 1)) < length ?r"
    by (simp add: length_division_result lv)
  ultimately have "CHR ''1'' \<in> set ?r" by (metis nth_mem)
  then have "\<not> list_all (\<lambda>ch. ch = CHR ''0'') ?r" by (auto simp: list_all_iff)
  with check_crc_receiver_fst [OF v0 vb g, of s] n show ?thesis
    by (simp add: Let_def lv)
qed


lemma length_flip_loop: "length (flip_loop len pos_list changed) = length changed"
  by (induction len pos_list changed rule: flip_loop.induct) simp_all

lemma nth_flip_loop:
  assumes "distinct (filter (\<lambda>pos. pos \<noteq> None) pos_list)"
    and "j < length changed" and "length changed = len"
  shows "flip_loop len pos_list changed ! j =
         (if Some (int j) \<in> set pos_list
          then (if changed ! j = CHR ''0'' then CHR ''1'' else CHR ''0'')
          else changed ! j)"
  using assms
proof (induction len pos_list changed rule: flip_loop.induct)
  case (1 len changed)
  show ?case by simp
next
  case (2 len pos_list changed)
  then show ?case by simp
next
  case (3 len p pos_list changed)
  let ?c = "if 0 \<le> p \<and> p < int len
            then changed[nat p := (if changed ! nat p = CHR ''0'' then CHR ''1'' else CHR ''0'')]
            else changed"
  from "3.prems" have d: "distinct (filter (\<lambda>pos. pos \<noteq> None) pos_list)"
    and notin: "Some p \<notin> set pos_list" by simp_all
  have lc: "length ?c = length changed" by simp
  from "3.IH" [OF d] "3.prems"(2,3) lc
  have ih: "flip_loop len pos_list ?c ! j =
         (if Some (int j) \<in> set pos_list
          then (if ?c ! j = CHR ''0'' then CHR ''1'' else CHR ''0'')
          else ?c ! j)"
    by simp
  show ?case
  proof (cases "p = int j")
    case True
    with notin "3.prems"(2,3) show ?thesis
      unfolding flip_loop.simps ih by simp
  next
    case False
    then have "0 \<le> p \<Longrightarrow> nat p \<noteq> j" by auto
    with "3.prems"(2) have "?c ! j = changed ! j" by simp
    with False show ?thesis
      unfolding flip_loop.simps ih by auto
  qed
qed

section \<open>The claims\<close>

text \<open>
  C1. For every non-empty binary data string and every non-empty binary generator whose
  leading bit is 1, \<open>compute_crc_sender\<close> returns a checksum and a transmitted frame, and
  \<open>check_crc_receiver\<close> on that frame with the same generator returns \<open>ok = True\<close> with a
  remainder whose bits are all 0, whether or not either side prints its steps.
\<close>

theorem round_trip_clean:
  assumes "data_bits \<noteq> []" "set data_bits \<subseteq> {CHR ''0'', CHR ''1''}"
    and "generator_bits \<noteq> []" "set generator_bits \<subseteq> {CHR ''0'', CHR ''1''}"
    and "hd generator_bits = CHR ''1''"
  shows "\<exists>crc transmitted remainder.
           fst (compute_crc_sender data_bits generator_bits show_sender) = Inr (crc, transmitted) \<and>
           fst (check_crc_receiver transmitted generator_bits show_receiver) = Inr (True, remainder) \<and>
           (\<forall>ch\<in>set remainder. ch = CHR ''0'')"
  using compute_crc_sender_checksum [OF assms, of show_sender]
    transmitted_remainder_zero [OF assms, of show_receiver]
  by auto

theorem round_trip_clean_witness:
  "fst (compute_crc_sender ''1101'' ''1011'' True) = Inr (''001'', ''1101001'') \<and>
   fst (check_crc_receiver ''1101001'' ''1011'' True) = Inr (True, ''000'')"
proof -
  have s: "fst (compute_crc_sender ''1101'' ''1011'' True) = Inr (''001'', ''1101001'')"
    by code_simp
  have l: "fst (long_division_show ''1101001'' ''1011'' True) = Inr ''000''"
    by code_simp
  have r: "fst (check_crc_receiver ''1101001'' ''1011'' True) = Inr (ok, rem) \<Longrightarrow> rem = ''000''"
    for ok rem
    using l by (auto simp: check_crc_receiver_def validate_binary_str_def Let_def
        split: prod.splits sum.splits)
  from round_trip_clean [of "''1101''" "''1011''" True True] s r
  show ?thesis by auto
qed

text \<open>
  C2, as stated, fails: \<open>long_division_show\<close> does not look at the leading bit of the
  divisor. With the divisor \<open>0101\<close> it runs the loop, XORs at offset 0 and returns a
  remainder.
\<close>

theorem divider_accepts_leading_zero_generator:
  "hd ''0101'' \<noteq> CHR ''1'' \<and>
   long_division_show ''1101000'' ''0101'' True =
     (Inr ''000'',
      [Steps_header 4, Divisor_line ''0101'', Rule_line,
       Step_window 1 0 ''1101'', Step_xor ''1000'', Step_window 2 1 ''0000'', Step_skip,
       Step_window 3 2 ''0000'', Step_skip, Step_window 4 3 ''0000'', Step_skip,
       Rule_line, Remainder_line 3 ''000''])"
  by code_simp

text \<open>
  C2, amended. The check of the leading bit is made by the callers of the divider: for valid
  bits and a valid generator whose leading bit is not 1, \<open>compute_crc_sender\<close> and
  \<open>check_crc_receiver\<close> raise \<open>ValueError\<close> with the generator message before the divider is
  called: nothing has been printed and no step of the division has run.
\<close>

theorem leading_bit_checked_by_sender_and_receiver:
  assumes "bits \<noteq> []" "set bits \<subseteq> {CHR ''0'', CHR ''1''}"
    and "generator_bits \<noteq> []" "set generator_bits \<subseteq> {CHR ''0'', CHR ''1''}"
    and "hd generator_bits \<noteq> CHR ''1''"
  shows "compute_crc_sender bits generator_bits show_steps =
           (Inl (ValueError generator_message), []) \<and>
         check_crc_receiver bits generator_bits show_steps =
           (Inl (ValueError generator_message), [])"
  using assms
  by (simp add: compute_crc_sender_def check_crc_receiver_def validate_binary_str_valid)

theorem leading_bit_checked_by_sender_and_receiver_witness:
  "compute_crc_sender ''1101'' ''0101'' True = (Inl (ValueError generator_message), []) \<and>
   check_crc_receiver ''1101'' ''0101'' True = (Inl (ValueError generator_message), [])"
  using leading_bit_checked_by_sender_and_receiver [of "''1101''" "''0101''" True] by simp

text \<open>
  C3. Dividing by the generator \<open>"1"\<close> returns the one-bit remainder \<open>"0"\<close>, which is not the
  empty string, for every dividend (the non-empty binary ones among them), with or without
  the steps printed.
\<close>

theorem degenerate_generator_remainder:
  "fst (long_division_show dividend ''1'' show_steps) = Inr ''0'' \<and> ''0'' \<noteq> ''''"
  by (simp add: long_division_show_fst)

theorem degenerate_generator_remainder_witness:
  "fst (long_division_show ''1101'' ''1'' True) = Inr ''0''"
  using degenerate_generator_remainder [of "''1101''" True] by simp

text \<open>
  C4, as stated, fails for the generator \<open>1\<close>: the checksum is then the one bit \<open>0\<close>, not the
  empty string, and the frame is one bit longer than the data.
\<close>

theorem frame_length_degenerate_generator:
  "fst (compute_crc_sender ''1'' ''1'' False) = Inr (''0'', ''10'') \<and>
   length ''10'' \<noteq> length ''1'' + (length ''1'' - 1)"
  by code_simp

text \<open>
  C4, amended. For valid data and a valid generator whose leading bit is 1,
  \<open>compute_crc_sender\<close> returns a checksum and the frame \<open>data + checksum\<close>; when the
  generator has at least two bits the checksum has \<open>len generator - 1\<close> bits and the frame
  \<open>len data + (len generator - 1)\<close>; for the one-bit generator the checksum is \<open>0\<close> and the
  frame has \<open>len data + 1\<close> bits.
\<close>

theorem frame_length:
  assumes "data_bits \<noteq> []" "set data_bits \<subseteq> {CHR ''0'', CHR ''1''}"
    and "generator_bits \<noteq> []" "set generator_bits \<subseteq> {CHR ''0'', CHR ''1''}"
    and "hd generator_bits = CHR ''1''"
  shows "\<exists>crc transmitted.
           fst (compute_crc_sender data_bits generator_bits show_steps) = Inr (crc, transmitted) \<and>
           transmitted = data_bits @ crc \<and>
           (2 \<le> length generator_bits \<longrightarrow>
              length crc = length generator_bits - 1 \<and>
              length transmitted = length data_bits + (length generator_bits - 1)) \<and>
           (length generator_bits = 1 \<longrightarrow>
              crc = ''0'' \<and> length transmitted = length data_bits + 1)"
  using compute_crc_sender_fst [OF assms, of show_steps]
  by (auto simp: Let_def length_division_result)

theorem frame_length_witness:
  "fst (compute_crc_sender ''1101'' ''1011'' True) = Inr (''001'', ''1101001'') \<and>
   fst (compute_crc_sender ''1101'' ''1'' True) = Inr (''0'', ''11010'')"
proof -
  have "fst (compute_crc_sender ''1101'' ''1011'' True) = Inr (''001'', ''1101001'')"
    by code_simp
  with frame_length [of "''1101''" "''1011''" True] frame_length [of "''1101''" "''1''" True]
  show ?thesis by auto
qed

text \<open>
  C5. For valid data and a valid generator whose leading bit is 1 and which has at least two
  1 bits (so its degree is at least 1), \<open>compute_crc_sender\<close> returns a frame such that
  flipping the bit at any one position of the frame (choice 2 of \<open>demo_interactive\<close>) makes
  \<open>check_crc_receiver\<close> with the same generator return \<open>ok = False\<close>.
\<close>

theorem single_bit_error_detected:
  assumes "data_bits \<noteq> []" "set data_bits \<subseteq> {CHR ''0'', CHR ''1''}"
    and "generator_bits \<noteq> []" "set generator_bits \<subseteq> {CHR ''0'', CHR ''1''}"
    and "hd generator_bits = CHR ''1''"
    and "2 \<le> length (filter (\<lambda>c. c = CHR ''1'') generator_bits)"
  shows "\<exists>crc transmitted.
           fst (compute_crc_sender data_bits generator_bits show_sender) = Inr (crc, transmitted) \<and>
           (\<forall>p. 0 \<le> p \<and> p < int (length transmitted) \<longrightarrow>
              (\<exists>remainder.
                 fst (check_crc_receiver (flip_one transmitted (Some p)) generator_bits show_receiver)
                   = Inr (False, remainder)))"
  using compute_crc_sender_checksum [OF assms(1-5), of show_sender]
    flipped_frame_detected [OF assms, of _ show_receiver]
  by auto

theorem single_bit_error_detected_witness:
  "fst (compute_crc_sender ''1101'' ''1011'' True) = Inr (''001'', ''1101001'') \<and>
   flip_one ''1101001'' (Some 0) = ''0101001'' \<and>
   (\<exists>remainder. fst (check_crc_receiver ''0101001'' ''1011'' True) = Inr (False, remainder))"
proof -
  have s: "fst (compute_crc_sender ''1101'' ''1011'' True) = Inr (''001'', ''1101001'')"
    by code_simp
  have f: "flip_one ''1101001'' (Some 0) = ''0101001''"
    by code_simp
  from single_bit_error_detected [of "''1101''" "''1011''" True True] s
  have "\<forall>p. 0 \<le> p \<and> p < int (length ''1101001'') \<longrightarrow>
          (\<exists>remainder. fst (check_crc_receiver (flip_one ''1101001'' (Some p)) ''1011'' True)
             = Inr (False, remainder))"
    by simp
  then have "\<exists>remainder. fst (check_crc_receiver (flip_one ''1101001'' (Some 0)) ''1011'' True)
             = Inr (False, remainder)"
    by simp
  with s f show ?thesis by simp
qed

text \<open>
  C6. \<open>validate_binary_str\<close> raises \<open>ValueError\<close> exactly when the text is empty or has a
  character other than \<open>0\<close> and \<open>1\<close>; it raises nothing else, and when it does not raise it
  returns the text it was given.
\<close>

theorem validate_fails_iff:
  "((\<exists>msg. validate_binary_str s name = Inl (ValueError msg)) \<longleftrightarrow>
      (s = [] \<or> (\<exists>c\<in>set s. c \<noteq> CHR ''0'' \<and> c \<noteq> CHR ''1''))) \<and>
   (validate_binary_str s name \<noteq> Inl IndexError) \<and>
   (\<not> (s = [] \<or> (\<exists>c\<in>set s. c \<noteq> CHR ''0'' \<and> c \<noteq> CHR ''1'')) \<longrightarrow>
      validate_binary_str s name = Inr s)"
  by (auto simp: validate_binary_str_def list_ex_iff)

theorem validate_fails_iff_witness:
  "(\<exists>msg. validate_binary_str '''' ''Data bits'' = Inl (ValueError msg)) \<and>
   (\<exists>msg. validate_binary_str ''102'' ''Data bits'' = Inl (ValueError msg)) \<and>
   validate_binary_str ''1101'' ''Data bits'' = Inr ''1101''"
  using validate_fails_iff [of "''''" "''Data bits''"]
    validate_fails_iff [of "''102''" "''Data bits''"]
    validate_fails_iff [of "''1101''" "''Data bits''"]
  by simp

text \<open>
  C7. For a valid received frame and a valid generator whose leading bit is 1,
  \<open>check_crc_receiver\<close> divides the received frame itself (nothing is appended to it): the
  remainder it returns is the one \<open>long_division_show\<close> returns for the received frame, the
  division raises nothing, and \<open>ok\<close> is true exactly when every bit of that remainder is 0.
\<close>

theorem receiver_divides_received_frame:
  assumes "received_bits \<noteq> []" "set received_bits \<subseteq> {CHR ''0'', CHR ''1''}"
    and "generator_bits \<noteq> []" "set generator_bits \<subseteq> {CHR ''0'', CHR ''1''}"
    and "hd generator_bits = CHR ''1''"
  shows "\<exists>ok remainder.
           fst (check_crc_receiver received_bits generator_bits show_steps) = Inr (ok, remainder) \<and>
           fst (long_division_show received_bits generator_bits show_steps) = Inr remainder \<and>
           (ok \<longleftrightarrow> (\<forall>ch\<in>set remainder. ch = CHR ''0''))"
  using check_crc_receiver_fst [OF assms, of show_steps]
    long_division_show_fst [OF assms(3), of received_bits show_steps]
  by (simp add: Let_def list_all_iff)

theorem receiver_divides_received_frame_witness:
  "fst (check_crc_receiver ''1101001'' ''1011'' True) = Inr (True, ''000'') \<and>
   fst (long_division_show ''1101001'' ''1011'' True) = Inr ''000''"
proof -
  have "fst (long_division_show ''1101001'' ''1011'' True) = Inr ''000''"
    by code_simp
  with receiver_divides_received_frame [of "''1101001''" "''1011''" True]
  show ?thesis by auto
qed

text \<open>
  C8. The remainder that \<open>long_division_show\<close> returns does not depend on \<open>show_steps\<close>: for
  every dividend and every divisor, the call that prints the steps and the call that does
  not return the same remainder, or end in the same exception.
\<close>

theorem trace_has_no_effect_on_remainder:
  "fst (long_division_show dividend divisor True) = fst (long_division_show dividend divisor False)"
proof -
  let ?is = "[0 ..< length dividend + 1 - length divisor]"
  let ?o1 = "[Steps_header (length divisor), Divisor_line divisor, Rule_line]"
  obtain r1 out1 where l1: "division_loop divisor True ?is dividend ?o1 = (r1, out1)"
    by (cases "division_loop divisor True ?is dividend ?o1")
  obtain r2 out2 where l2: "division_loop divisor False ?is dividend [] = (r2, out2)"
    by (cases "division_loop divisor False ?is dividend []")
  from division_loop_trace_free [of divisor True ?is dividend ?o1 False "[]"] l1 l2
  have "r1 = r2" by simp
  with l1 l2 show ?thesis
    by (cases r2) (simp_all add: long_division_show_def Let_def)
qed

theorem trace_has_no_effect_on_remainder_witness:
  "fst (long_division_show ''1101000'' ''1011'' True) = Inr ''001'' \<and>
   fst (long_division_show ''1101000'' ''1011'' False) = Inr ''001''"
proof -
  have "fst (long_division_show ''1101000'' ''1011'' False) = Inr ''001''"
    by code_simp
  with trace_has_no_effect_on_remainder [of "''1101000''" "''1011''"] show ?thesis by simp
qed

text \<open>
  C9. The offsets of choice 3 are given as the list of tokens typed, \<open>None\<close> for a token that
  is not an integer; a set of offsets is such a list with no offset repeated. For every frame
  and every such list, \<open>flip_many\<close> returns a frame of the same length in which the bit at
  offset \<open>j\<close> is flipped when \<open>j\<close> is among the offsets and unchanged otherwise; offsets
  outside \<open>[0, len frame)\<close> and tokens that do not parse change nothing, and no exception
  leaves the loop. On a binary frame the result differs from the frame exactly at the
  requested offsets in range.
\<close>

theorem flip_many_toggles_positions_in_range:
  assumes "distinct (filter (\<lambda>pos. pos \<noteq> None) pos_list)"
  shows "length (flip_many frame pos_list) = length frame \<and>
         (\<forall>j<length frame.
            flip_many frame pos_list ! j =
              (if Some (int j) \<in> set pos_list
               then (if frame ! j = CHR ''0'' then CHR ''1'' else CHR ''0'')
               else frame ! j)) \<and>
         (set frame \<subseteq> {CHR ''0'', CHR ''1''} \<longrightarrow>
            (\<forall>j<length frame.
               (flip_many frame pos_list ! j \<noteq> frame ! j) = (Some (int j) \<in> set pos_list)))"
proof -
  have len: "length (flip_many frame pos_list) = length frame"
    by (simp add: flip_many_def length_flip_loop)
  have nth: "flip_many frame pos_list ! j =
              (if Some (int j) \<in> set pos_list
               then (if frame ! j = CHR ''0'' then CHR ''1'' else CHR ''0'')
               else frame ! j)" if "j < length frame" for j
    using assms that by (simp add: flip_many_def nth_flip_loop)
  have "(flip_many frame pos_list ! j \<noteq> frame ! j) = (Some (int j) \<in> set pos_list)"
    if "set frame \<subseteq> {CHR ''0'', CHR ''1''}" "j < length frame" for j
    using bit_cases [OF that] by (auto simp: nth [OF that(2)])
  with len nth show ?thesis by simp
qed

theorem flip_many_toggles_positions_in_range_witness:
  "flip_many ''1101001'' [Some 0, None, Some 9, None, Some (- 1), Some 6] = ''0101000''"
proof -
  have l: "length (flip_many ''1101001'' [Some 0, None, Some 9, None, Some (- 1), Some 6]) = 7"
    and n: "\<forall>j<7. flip_many ''1101001'' [Some 0, None, Some 9, None, Some (- 1), Some 6] ! j =
              (if Some (int j) \<in> set [Some 0, None, Some 9, None, Some (- 1), Some 6]
               then (if ''1101001'' ! j = CHR ''0'' then CHR ''1'' else CHR ''0'')
               else ''1101001'' ! j)"
    using flip_many_toggles_positions_in_range
      [of "[Some 0, None, Some 9, None, Some (- 1), Some 6]" "''1101001''"]
    by simp_all
  show ?thesis
  proof (rule nth_equalityI)
    show "length (flip_many ''1101001'' [Some 0, None, Some 9, None, Some (- 1), Some 6]) = length ''0101000''"
      using l by simp
  next
    fix j assume "j < length (flip_many ''1101001'' [Some 0, None, Some 9, None, Some (- 1), Some 6])"
    with l have "j < 7" by simp
    then have "j \<in> {0, 1, 2, 3, 4, 5, 6}" by auto
    with n show "flip_many ''1101001'' [Some 0, None, Some 9, None, Some (- 1), Some 6] ! j = ''0101000'' ! j"
      by auto
  qed
qed

text \<open>
  C10, as stated, fails at one pair: the empty dividend is shorter than the divisor \<open>1\<close>, and
  \<open>long_division_show\<close> runs no step there but returns \<open>0\<close> from its \<open>n = 1\<close> branch, which is
  not the last \<open>min (len dividend) (len divisor - 1)\<close> bits of the dividend (the empty string).
\<close>

theorem empty_dividend_one_bit_divisor:
  "length '''' < length ''1'' \<and>
   long_division_show '''' ''1'' True =
     (Inr ''0'',
      [Steps_header 1, Divisor_line ''1'', Rule_line, Rule_line, Remainder_line 0 ''0'']) \<and>
   ''0'' \<noteq> drop (length '''' - min (length '''') (length ''1'' - 1)) ''''"
  by code_simp

text \<open>
  C10, amended. For a dividend strictly shorter than the divisor, \<open>long_division_show\<close> runs no
  step of the loop (with the steps printed, the output has the header and the remainder line
  and no step line). When the dividend is not empty, or the divisor has at least two
  characters, it returns the dividend unchanged, which is its last
  \<open>min (len dividend) (len divisor - 1)\<close> bits, and when the dividend is shorter than
  \<open>len divisor - 1\<close>, so is the remainder returned. For the empty dividend and a divisor of one
  character it returns \<open>0\<close>.
\<close>

theorem short_dividend_returned_unchanged:
  assumes "length dividend < length divisor"
  shows "(dividend \<noteq> [] \<or> 1 < length divisor \<longrightarrow>
            long_division_show dividend divisor True =
              (Inr dividend,
               [Steps_header (length divisor), Divisor_line divisor, Rule_line, Rule_line,
                Remainder_line (int (length divisor) - 1) dividend]) \<and>
            long_division_show dividend divisor False = (Inr dividend, []) \<and>
            dividend = drop (length dividend - min (length dividend) (length divisor - 1)) dividend \<and>
            (length dividend < length divisor - 1 \<longrightarrow>
               (\<exists>remainder. fst (long_division_show dividend divisor show_steps) = Inr remainder \<and>
                            length remainder < length divisor - 1))) \<and>
         (dividend = [] \<and> length divisor = 1 \<longrightarrow>
            long_division_show dividend divisor True =
              (Inr ''0'',
               [Steps_header 1, Divisor_line divisor, Rule_line, Rule_line,
                Remainder_line 0 ''0'']) \<and>
            long_division_show dividend divisor False = (Inr ''0'', []))"
proof (intro conjI impI)
  from assms have e: "[0 ..< length dividend + 1 - length divisor] = []" by simp
  {
    assume "dividend \<noteq> [] \<or> 1 < length divisor"
    with assms have n: "1 < length divisor" by (cases dividend) auto
    show t: "long_division_show dividend divisor True =
             (Inr dividend,
              [Steps_header (length divisor), Divisor_line divisor, Rule_line, Rule_line,
               Remainder_line (int (length divisor) - 1) dividend])"
      using n assms unfolding long_division_show_def Let_def e by simp
    show f: "long_division_show dividend divisor False = (Inr dividend, [])"
      using n assms unfolding long_division_show_def Let_def e by simp
    show "dividend = drop (length dividend - min (length dividend) (length divisor - 1)) dividend"
      using assms by simp
    assume "length dividend < length divisor - 1"
    moreover from t f have "fst (long_division_show dividend divisor show_steps) = Inr dividend"
      by (cases show_steps) simp_all
    ultimately show "\<exists>remainder. fst (long_division_show dividend divisor show_steps) = Inr remainder \<and>
                            length remainder < length divisor - 1"
      by simp
  }
  {
    assume d: "dividend = [] \<and> length divisor = 1"
    show "long_division_show dividend divisor True =
              (Inr ''0'',
               [Steps_header 1, Divisor_line divisor, Rule_line, Rule_line,
                Remainder_line 0 ''0''])"
      using d unfolding long_division_show_def Let_def e by simp
    show "long_division_show dividend divisor False = (Inr ''0'', [])"
      using d unfolding long_division_show_def Let_def e by simp
  }
qed

theorem short_dividend_returned_unchanged_witness:
  "long_division_show ''10'' ''1011'' True =
     (Inr ''10'', [Steps_header 4, Divisor_line ''1011'', Rule_line, Rule_line,
                   Remainder_line 3 ''10'']) \<and>
   long_division_show ''10'' ''1011'' False = (Inr ''10'', []) \<and>
   (\<exists>remainder. fst (long_division_show ''10'' ''1011'' True) = Inr remainder \<and>
                length remainder < 3) \<and>
   long_division_show '''' ''1'' False = (Inr ''0'', [])"
  using short_dividend_returned_unchanged [of "''10''" "''1011''" True]
    short_dividend_returned_unchanged [of "''''" "''1''" True]
  by simp

end
